theory Spec2Isabelle
  imports Main "HOL-Library.Word"
begin

section \<open>Machine integers\<close>

text \<open>
  Sequence numbers are \<open>int64_t\<close> in the durability monitor and \<open>uint64_t\<close> at its
  interface. Both are 64-bit words here: a cast between the two is the identity on the
  bits, a signed comparison is \<open><=s\<close> / \<open><s\<close> and an unsigned comparison is
  \<open>\<le>\<close> / \<open><\<close>. The counters are \<open>size_t\<close> and wrap around.
\<close>

type_synonym int64 = "64 word"
type_synonym uint64 = "64 word"
type_synonym size_t = "64 word"

section \<open>Data model\<close>

text \<open>
  Modelled from the spec: the durability level enumeration (declared in
  durability_spec.h, which is not among the sources). Section 3 lists the levels in
  increasing order; \<open>levelValue\<close> is the underlying value the code compares with
  \<open>\<le>\<close>.
\<close>

datatype Level = LevelNone | Majority | MajorityAndPersistOnMaster | PersistToMajority

fun levelValue :: "Level \<Rightarrow> nat" where
  "levelValue LevelNone = 0"
| "levelValue Majority = 1"
| "levelValue MajorityAndPersistOnMaster = 2"
| "levelValue PersistToMajority = 3"

text \<open>
  Modelled from the spec: the timeout of a durability requirement is a duration, the
  sentinel "infinite", or the default sentinel that the active node must replace.
\<close>

datatype Timeout = BucketDefault | Infinity | Millis nat

fun isDefault :: "Timeout \<Rightarrow> bool" where
  "isDefault BucketDefault = True"
| "isDefault Infinity = False"
| "isDefault (Millis n) = False"

text \<open>A queued item as far as the monitor reads it: key, seqno, durability requirements.\<close>

record Item =
  key :: string
  bySeqno :: int64
  level :: Level
  timeout :: Timeout

text \<open>
  Modelled from the spec: the SyncWrite class (declared in durability_monitor_impl.h,
  which is not among the sources). A tracked SyncWrite is the item plus the set-once
  \<open>completed\<close> flag; a new SyncWrite is not completed.
\<close>

record SyncWrite = Item +
  completed :: bool

definition newSyncWrite :: "Item \<Rightarrow> SyncWrite" where
  "newSyncWrite item =
     \<lparr>key = key item, bySeqno = bySeqno item, level = level item,
      timeout = timeout item, completed = False\<rparr>"

datatype CheckpointType = Memory | Disk

record SnapshotEnd =
  seqno :: int64
  type :: CheckpointType

text \<open>
  \<open>Container\<close> is a \<open>std::list\<close> of SyncWrites and a \<open>Container::iterator\<close> is a
  position in it. An iterator is modelled by the index of the element it points to;
  \<open>None\<close> is \<open>end()\<close>. Iterators of a \<open>std::list\<close> stay on their element when
  another element is erased; in the index representation this is the shift done by
  \<open>shiftIt\<close>.
\<close>

type_synonym iterator = "nat option"

record Position =
  it :: iterator
  lastWriteSeqno :: int64

record State =
  trackedWrites :: "SyncWrite list"
  highPreparedSeqno :: Position
  highCompletedSeqno :: Position
  receivedSnapshotEnds :: "SnapshotEnd list"
  totalAccepted :: size_t
  totalCommitted :: size_t
  totalAborted :: size_t

text \<open>
  Exceptions. \<open>InvalidArgument\<close> and \<open>LogicError\<close> are the two exception classes thrown
  through \<open>throwException\<close>, told apart by the place that throws;
  \<open>ExpectsFailed\<close> is a failed \<open>Expects\<close>; \<open>MonotonicViolation\<close> is the trap of
  the monotonic counter.
\<close>

datatype error =
    InvalidArgument_LevelNone
  | InvalidArgument_TimeoutDefault
  | LogicError_DuplicateSyncWrite
  | LogicError_NoTracked
  | LogicError_NoPrepareWaiting
  | LogicError_UnexpectedKey
  | LogicError_DifferentPrepareSeqno
  | ExpectsFailed
  | MonotonicViolation

text \<open>
  The outcome of a call: it returned (\<open>Done\<close>) or threw (\<open>Thrown\<close>); both carry the
  state the call left behind, since an exception does not undo earlier writes.
\<close>

datatype 's outcome = Done 's | Thrown error 's

fun stateOf :: "'s outcome \<Rightarrow> 's" where
  "stateOf (Done s) = s"
| "stateOf (Thrown e s) = s"

fun isThrown :: "'s outcome \<Rightarrow> bool" where
  "isThrown (Done s) = False"
| "isThrown (Thrown e s) = True"

text \<open>
  Modelled from the spec: the monotonic wrapper of \<open>lastWriteSeqno\<close> (its declaration
  is not among the sources). The spec calls the counter monotonically non-decreasing and
  says that an assignment is guarded to trap any attempt to move backwards: assigning a
  value below the current one throws and leaves the counter as it is.
\<close>

definition monotonicAssign :: "int64 \<Rightarrow> int64 \<Rightarrow> error + int64" where
  "monotonicAssign cur new = (if new <s cur then Inl MonotonicViolation else Inr new)"

section \<open>The container and its iterators\<close>

definition tw_begin :: "SyncWrite list \<Rightarrow> iterator" where
  "tw_begin tw = (if tw = [] then None else Some 0)"

definition std_next :: "SyncWrite list \<Rightarrow> nat \<Rightarrow> iterator" where
  "std_next tw i = (if Suc i < length tw then Some (Suc i) else None)"

definition getIteratorNext :: "SyncWrite list \<Rightarrow> iterator \<Rightarrow> iterator" where
  "getIteratorNext tw itr = (case itr of None \<Rightarrow> tw_begin tw | Some i \<Rightarrow> std_next tw i)"

text \<open>
  What an iterator held elsewhere becomes when the element at index \<open>i\<close> is erased:
  positions behind \<open>i\<close> move down by one. (An iterator on the erased element itself
  would dangle; the code resets both cursors before every erase.)
\<close>

definition shiftIt :: "nat \<Rightarrow> iterator \<Rightarrow> iterator" where
  "shiftIt i itr = (case itr of None \<Rightarrow> None | Some j \<Rightarrow> if i < j then Some (j - 1) else Some j)"

definition resetIfAt :: "nat \<Rightarrow> Position \<Rightarrow> Position" where
  "resetIfAt i p = (if it p = Some i then p\<lparr>it := None\<rparr> else p)"

text \<open>
  The three statements that both erasing sites share: reset the HCS iterator if it is on
  the element, reset the HPS iterator if it is on the element, erase the element.
\<close>

definition eraseTracked :: "nat \<Rightarrow> State \<Rightarrow> State" where
  "eraseTracked i s =
     (let hcs = resetIfAt i (highCompletedSeqno s);
          hps = resetIfAt i (highPreparedSeqno s)
      in s\<lparr>trackedWrites := take i (trackedWrites s) @ drop (Suc i) (trackedWrites s),
           highCompletedSeqno := hcs\<lparr>it := shiftIt i (it hcs)\<rparr>,
           highPreparedSeqno := hps\<lparr>it := shiftIt i (it hps)\<rparr>\<rparr>)"

text \<open>
  The scan used by addSyncWrite and by completeSyncWrite:
  \<^verbatim>\<open>while (itr != end() && itr->getKey() != key) itr = getIteratorNext(itr);\<close>
\<close>

function scanForKey :: "SyncWrite list \<Rightarrow> string \<Rightarrow> iterator \<Rightarrow> iterator" where
  "scanForKey tw k itr =
     (case itr of
        None \<Rightarrow> None
      | Some i \<Rightarrow>
          if i < length tw \<and> key (tw ! i) \<noteq> k
          then scanForKey tw k (getIteratorNext tw itr)
          else itr)"
  by pat_completeness auto
termination
  by (relation "measure (\<lambda>(tw, k, itr). case itr of None \<Rightarrow> 0 | Some i \<Rightarrow> Suc (length tw - i))")
     (auto simp: getIteratorNext_def std_next_def)

declare scanForKey.simps [simp del]

section \<open>checkForAndRemovePrepares\<close>

text \<open>
  \<open>smin\<close> is \<open>std::min\<close> on \<open>int64_t\<close>; \<open>fenceOf\<close> is the fence; \<open>removeUpTo\<close> is the
  \<open>while\<close> loop, which erases at the head as long as the head's seqno is at most the
  fence. Nothing in it reads the \<open>completed\<close> flag.
\<close>

definition smin :: "int64 \<Rightarrow> int64 \<Rightarrow> int64" where
  "smin a b = (if b <s a then b else a)"

definition fenceOf :: "State \<Rightarrow> int64" where
  "fenceOf s = smin (lastWriteSeqno (highCompletedSeqno s)) (lastWriteSeqno (highPreparedSeqno s))"

function removeUpTo :: "int64 \<Rightarrow> State \<Rightarrow> State" where
  "removeUpTo fence s =
     (if trackedWrites s \<noteq> [] \<and> bySeqno (trackedWrites s ! 0) <=s fence
      then removeUpTo fence (eraseTracked 0 s)
      else s)"
  by pat_completeness auto
termination
  by (relation "measure (\<lambda>(fence, s). length (trackedWrites s))")
     (auto simp: eraseTracked_def Let_def)

declare removeUpTo.simps [simp del]

definition checkForAndRemovePrepares :: "State \<Rightarrow> State" where
  "checkForAndRemovePrepares s =
     (if trackedWrites s = [] then s else removeUpTo (fenceOf s) s)"

text \<open>
  What a cursor iterator has become after the first \<open>n\<close> elements were erased one by
  one from the head: reset to \<open>end()\<close> if it was on one of them, otherwise still on its
  element, whose index is \<open>n\<close> less.
\<close>

definition rebase :: "nat \<Rightarrow> iterator \<Rightarrow> iterator" where
  "rebase n itr = (case itr of None \<Rightarrow> None | Some j \<Rightarrow> if j < n then None else Some (j - n))"

section \<open>addSyncWrite\<close>

text \<open>
  \<open>devAsserts\<close> is the build flag \<open>CB_DEVELOPMENT_ASSERTS\<close>. The two argument
  checks come first and throw before the state is touched. With an
  \<open>overwritingPrepareSeqno\<close> the first tracked write with the item's key is looked up
  and, when there is one, checked against that seqno (\<open>Expects\<close>) and erased.
\<close>

definition addSyncWrite :: "bool \<Rightarrow> Item \<Rightarrow> int64 option \<Rightarrow> State \<Rightarrow> State outcome" where
  "addSyncWrite devAsserts item overwritingPrepareSeqno s =
     (if level item = LevelNone then Thrown InvalidArgument_LevelNone s
      else if isDefault (timeout item) then Thrown InvalidArgument_TimeoutDefault s
      else
        case (case overwritingPrepareSeqno of
                None \<Rightarrow> Done s
              | Some ops \<Rightarrow>
                  (case scanForKey (trackedWrites s) (key item) (tw_begin (trackedWrites s)) of
                     None \<Rightarrow> Done s
                   | Some i \<Rightarrow>
                       if bySeqno (trackedWrites s ! i) \<noteq> ops then Thrown ExpectsFailed s
                       else Done (eraseTracked i s))) of
          Thrown e s1 \<Rightarrow> Thrown e s1
        | Done s1 \<Rightarrow>
            if devAsserts \<and>
               list_ex (\<lambda>write. \<not> completed write \<and> key write = key item) (trackedWrites s1)
            then Thrown LogicError_DuplicateSyncWrite s1
            else Done (s1\<lparr>trackedWrites := trackedWrites s1 @ [newSyncWrite item],
                          totalAccepted := totalAccepted s1 + 1\<rparr>))"

section \<open>updateHighPreparedSeqno\<close>

definition inSnapshot :: "SyncWrite list \<Rightarrow> uint64 \<Rightarrow> iterator \<Rightarrow> bool" where
  "inSnapshot tw snapshotEndSeqno prepareItr =
     (case prepareItr of
        None \<Rightarrow> False
      | Some i \<Rightarrow> bySeqno (tw ! i) \<le> snapshotEndSeqno)"

definition maxLevelCanAdvanceOver :: "bool \<Rightarrow> bool \<Rightarrow> Level" where
  "maxLevelCanAdvanceOver snapshotFullyPersisted isDiskSnapshot =
     (if snapshotFullyPersisted then PersistToMajority
      else if \<not> isDiskSnapshot then MajorityAndPersistOnMaster
      else LevelNone)"

text \<open>
  The inner \<open>for\<close> loop: while the write after the HPS iterator is in the snapshot and
  of a level the HPS may advance over, move the HPS (seqno first, then iterator) onto it.
\<close>

function advanceHPS :: "int64 \<Rightarrow> Level \<Rightarrow> State \<Rightarrow> State outcome" where
  "advanceHPS snapshotEndSeqno maxLevel s =
     (case getIteratorNext (trackedWrites s) (it (highPreparedSeqno s)) of
        None \<Rightarrow> Done s
      | Some n \<Rightarrow>
          if inSnapshot (trackedWrites s) snapshotEndSeqno (Some n) \<and>
             levelValue (level (trackedWrites s ! n)) \<le> levelValue maxLevel
          then (case monotonicAssign (lastWriteSeqno (highPreparedSeqno s))
                                     (bySeqno (trackedWrites s ! n)) of
                  Inl e \<Rightarrow> Thrown e s
                | Inr v \<Rightarrow>
                    advanceHPS snapshotEndSeqno maxLevel
                      (s\<lparr>highPreparedSeqno := \<lparr>it = Some n, lastWriteSeqno = v\<rparr>\<rparr>))
          else Done s)"
  by pat_completeness auto
termination
  by (relation "measure (\<lambda>(e, m, s).
        length (trackedWrites s) -
        (case getIteratorNext (trackedWrites s) (it (highPreparedSeqno s)) of
           None \<Rightarrow> length (trackedWrites s) | Some j \<Rightarrow> j))")
     (auto simp: getIteratorNext_def std_next_def tw_begin_def split: option.splits if_splits)

declare advanceHPS.simps [simp del]

text \<open>
  One turn of the \<open>while\<close> loop up to the test that ends it: the level the HPS may
  advance over, the advance itself, and the jump to the end of a persisted disk snapshot.
\<close>

definition advanceWithinSnapshot :: "uint64 \<Rightarrow> SnapshotEnd \<Rightarrow> State \<Rightarrow> State outcome" where
  "advanceWithinSnapshot persistenceSeqno snapshotEnd s =
     (let snapshotFullyPersisted = (seqno snapshotEnd <=s persistenceSeqno);
          isDiskSnapshot = (type snapshotEnd = Disk);
          maxLevel = maxLevelCanAdvanceOver snapshotFullyPersisted isDiskSnapshot
      in case (if trackedWrites s \<noteq> [] then advanceHPS (seqno snapshotEnd) maxLevel s
               else Done s) of
           Thrown e s1 \<Rightarrow> Thrown e s1
         | Done s1 \<Rightarrow>
             if isDiskSnapshot \<and> snapshotFullyPersisted
             then (case monotonicAssign (lastWriteSeqno (highPreparedSeqno s1))
                                        (seqno snapshotEnd) of
                     Inl e \<Rightarrow> Thrown e s1
                   | Inr v \<Rightarrow>
                       Done (s1\<lparr>highPreparedSeqno :=
                                  (highPreparedSeqno s1)\<lparr>lastWriteSeqno := v\<rparr>\<rparr>))
             else Done s1)"

text \<open>The test that ends the \<open>while\<close> loop with the snapshot end still queued.\<close>

definition stopsAtSnapshot :: "uint64 \<Rightarrow> SnapshotEnd \<Rightarrow> State \<Rightarrow> bool" where
  "stopsAtSnapshot persistenceSeqno snapshotEnd s =
     ((type snapshotEnd = Disk \<and> \<not> (seqno snapshotEnd <=s persistenceSeqno)) \<or>
      inSnapshot (trackedWrites s) (seqno snapshotEnd)
        (getIteratorNext (trackedWrites s) (it (highPreparedSeqno s))))"

function processSnapshotEnds :: "uint64 \<Rightarrow> State \<Rightarrow> State outcome" where
  "processSnapshotEnds persistenceSeqno s =
     (case receivedSnapshotEnds s of
        [] \<Rightarrow> Done s
      | snapshotEnd # rest \<Rightarrow>
          (case advanceWithinSnapshot persistenceSeqno snapshotEnd s of
             Thrown e s1 \<Rightarrow> Thrown e s1
           | Done s1 \<Rightarrow>
               if stopsAtSnapshot persistenceSeqno snapshotEnd s1 then Done s1
               else processSnapshotEnds persistenceSeqno
                      (s1\<lparr>receivedSnapshotEnds := tl (receivedSnapshotEnds s1)\<rparr>)))"
  by pat_completeness auto
termination
proof (relation "measure (\<lambda>(p, s). length (receivedSnapshotEnds s))", goal_cases)
  case 1
  show ?case by simp
next
  case (2 p s snapshotEnd rest s1)
  have adv: "receivedSnapshotEnds (stateOf (advanceHPS e m t)) = receivedSnapshotEnds t"
    for e m t
  proof (induction e m t rule: advanceHPS.induct)
    case (1 e m t)
    show ?case
      by (subst advanceHPS.simps) (auto simp: 1 split: option.splits sum.splits)
  qed
  define r where
    "r = (if trackedWrites s \<noteq> []
          then advanceHPS (seqno snapshotEnd)
                 (maxLevelCanAdvanceOver (seqno snapshotEnd <=s p) (type snapshotEnd = Disk)) s
          else Done s)"
  have "receivedSnapshotEnds (stateOf r) = receivedSnapshotEnds s"
    by (simp add: r_def adv)
  then have "receivedSnapshotEnds (stateOf (advanceWithinSnapshot p snapshotEnd s)) =
             receivedSnapshotEnds s"
    unfolding advanceWithinSnapshot_def Let_def r_def [symmetric]
    by (cases r) (auto split: sum.splits)
  with 2 show ?case by simp
qed

declare processSnapshotEnds.simps [simp del]

definition updateHighPreparedSeqno :: "uint64 \<Rightarrow> State \<Rightarrow> State outcome" where
  "updateHighPreparedSeqno persistenceSeqno s =
     (let prevHPS = lastWriteSeqno (highPreparedSeqno s)
      in case processSnapshotEnds persistenceSeqno s of
           Thrown e s1 \<Rightarrow> Thrown e s1
         | Done s1 \<Rightarrow>
             if lastWriteSeqno (highPreparedSeqno s1) \<noteq> prevHPS
             then (if \<not> prevHPS <s lastWriteSeqno (highPreparedSeqno s1)
                   then Thrown ExpectsFailed s1
                   else Done (checkForAndRemovePrepares s1))
             else Done s1)"

section \<open>completeSyncWrite\<close>

datatype Resolution = Commit | Abort | CompletionWasDeduped

text \<open>
  The write a completion is matched against: the one after the HCS iterator when
  completions must come in order, otherwise the first tracked write with the key.
\<close>

definition completionCandidate :: "bool \<Rightarrow> string \<Rightarrow> State \<Rightarrow> iterator" where
  "completionCandidate enforceOrderedCompletion k s =
     (if enforceOrderedCompletion
      then getIteratorNext (trackedWrites s) (it (highCompletedSeqno s))
      else scanForKey (trackedWrites s) k (tw_begin (trackedWrites s)))"

definition completeSyncWrite ::
  "string \<Rightarrow> Resolution \<Rightarrow> uint64 option \<Rightarrow> bool \<Rightarrow> State \<Rightarrow> State outcome" where
  "completeSyncWrite k res prepareSeqno isReceivingDiskSnapshot s =
     (if trackedWrites s = [] then Thrown LogicError_NoTracked s
      else
        let enforceOrderedCompletion = \<not> isReceivingDiskSnapshot
        in (case completionCandidate enforceOrderedCompletion k s of
              None \<Rightarrow> Thrown LogicError_NoPrepareWaiting s
            | Some n \<Rightarrow>
                (let w = trackedWrites s ! n
                 in if key w \<noteq> k then Thrown LogicError_UnexpectedKey s
                    else if (case prepareSeqno of None \<Rightarrow> False | Some p \<Rightarrow> bySeqno w \<noteq> p)
                    then Thrown LogicError_DifferentPrepareSeqno s
                    else
                      (case (if enforceOrderedCompletion \<or>
                                lastWriteSeqno (highCompletedSeqno s) <s bySeqno w
                             then (case monotonicAssign (lastWriteSeqno (highCompletedSeqno s))
                                                        (bySeqno w) of
                                     Inl e \<Rightarrow> Thrown e s
                                   | Inr v \<Rightarrow>
                                       Done (s\<lparr>highCompletedSeqno :=
                                                 \<lparr>it = Some n, lastWriteSeqno = v\<rparr>\<rparr>))
                             else Done s) of
                         Thrown e s1 \<Rightarrow> Thrown e s1
                       | Done s1 \<Rightarrow>
                           if completed w then Thrown ExpectsFailed s1
                           else
                             (let s2 = s1\<lparr>trackedWrites :=
                                            (trackedWrites s1)[n := w\<lparr>completed := True\<rparr>]\<rparr>;
                                  s3 = checkForAndRemovePrepares s2
                              in Done (case res of
                                         Commit \<Rightarrow> s3\<lparr>totalCommitted := totalCommitted s3 + 1\<rparr>
                                       | Abort \<Rightarrow> s3\<lparr>totalAborted := totalAborted s3 + 1\<rparr>
                                       | CompletionWasDeduped \<Rightarrow> s3))))))"

section \<open>The monitor, its latch and the acks it sends\<close>

text \<open>
  The monitor owns the locked state and the latch \<open>seqnoToAck\<close>. The owning vbucket is
  outside: what the code reads from it (\<open>isReceivingDiskSnapshot\<close>,
  \<open>getPersistenceSeqno\<close>) is an argument of the operation that reads it, and the calls
  of \<open>vb.sendSeqnoAck\<close> are recorded, in order, in \<open>sentSeqnoAcks\<close>.
\<close>

record PassiveDurabilityMonitor =
  state :: State
  seqnoToAck :: int64
  sentSeqnoAcks :: "int64 list"

text \<open>
  Modelled from the spec: the initial seqnos and counters (member initialisers in the
  header, which is not among the sources) are zero, as in the scenarios of the spec. The
  first constructor sets both iterators to \<open>end()\<close>; nothing is tracked.
\<close>

definition initialState :: State where
  "initialState =
     \<lparr>trackedWrites = [],
      highPreparedSeqno = \<lparr>it = None, lastWriteSeqno = 0\<rparr>,
      highCompletedSeqno = \<lparr>it = None, lastWriteSeqno = 0\<rparr>,
      receivedSnapshotEnds = [],
      totalAccepted = 0, totalCommitted = 0, totalAborted = 0\<rparr>"

definition newPassiveDurabilityMonitor :: PassiveDurabilityMonitor where
  "newPassiveDurabilityMonitor =
     \<lparr>state = initialState, seqnoToAck = 0, sentSeqnoAcks = []\<rparr>"

definition storeSeqnoAck :: "int64 \<Rightarrow> int64 \<Rightarrow> int64 \<Rightarrow> int64" where
  "storeSeqnoAck prevHps newHps latch =
     (if prevHps \<noteq> newHps then (if latch <s newHps then newHps else latch) else latch)"

definition sendSeqnoAck :: "PassiveDurabilityMonitor \<Rightarrow> PassiveDurabilityMonitor" where
  "sendSeqnoAck pdm =
     (let sent = (if seqnoToAck pdm \<noteq> 0 then sentSeqnoAcks pdm @ [seqnoToAck pdm]
                  else sentSeqnoAcks pdm)
      in pdm\<lparr>seqnoToAck := 0, sentSeqnoAcks := sent\<rparr>)"

text \<open>
  What the two notifications do while they hold the state lock: remember the HPS, update
  it, and latch the new HPS. When the update throws, nothing is latched.
\<close>

definition updateAndStore ::
  "uint64 \<Rightarrow> State \<Rightarrow> PassiveDurabilityMonitor \<Rightarrow> PassiveDurabilityMonitor outcome" where
  "updateAndStore persistenceSeqno s pdm =
     (let prevHps = lastWriteSeqno (highPreparedSeqno s)
      in case updateHighPreparedSeqno persistenceSeqno s of
           Thrown e s1 \<Rightarrow> Thrown e (pdm\<lparr>state := s1\<rparr>)
         | Done s1 \<Rightarrow>
             Done (pdm\<lparr>state := s1,
                       seqnoToAck := storeSeqnoAck prevHps
                                       (lastWriteSeqno (highPreparedSeqno s1))
                                       (seqnoToAck pdm)\<rparr>))"

definition notifySnapshotEndReceived_locked ::
  "uint64 \<Rightarrow> bool \<Rightarrow> uint64 \<Rightarrow> PassiveDurabilityMonitor \<Rightarrow> PassiveDurabilityMonitor outcome" where
  "notifySnapshotEndReceived_locked snapEnd isReceivingDiskSnapshot persistenceSeqno pdm =
     (let s = state pdm;
          s1 = s\<lparr>receivedSnapshotEnds :=
                   receivedSnapshotEnds s @
                   [\<lparr>seqno = snapEnd,
                     type = (if isReceivingDiskSnapshot then Disk else Memory)\<rparr>]\<rparr>
      in updateAndStore persistenceSeqno s1 pdm)"

definition notifyLocalPersistence_locked ::
  "uint64 \<Rightarrow> PassiveDurabilityMonitor \<Rightarrow> PassiveDurabilityMonitor outcome" where
  "notifyLocalPersistence_locked persistenceSeqno pdm =
     updateAndStore persistenceSeqno (state pdm) pdm"

text \<open>After the state lock is dropped the latched seqno is sent, unless the call threw.\<close>

fun thenSendSeqnoAck ::
  "PassiveDurabilityMonitor outcome \<Rightarrow> PassiveDurabilityMonitor outcome" where
  "thenSendSeqnoAck (Done pdm) = Done (sendSeqnoAck pdm)"
| "thenSendSeqnoAck (Thrown e pdm) = Thrown e pdm"

definition notifySnapshotEndReceived ::
  "uint64 \<Rightarrow> bool \<Rightarrow> uint64 \<Rightarrow> PassiveDurabilityMonitor \<Rightarrow> PassiveDurabilityMonitor outcome" where
  "notifySnapshotEndReceived snapEnd isReceivingDiskSnapshot persistenceSeqno pdm =
     thenSendSeqnoAck
       (notifySnapshotEndReceived_locked snapEnd isReceivingDiskSnapshot persistenceSeqno pdm)"

definition notifyLocalPersistence ::
  "uint64 \<Rightarrow> PassiveDurabilityMonitor \<Rightarrow> PassiveDurabilityMonitor outcome" where
  "notifyLocalPersistence persistenceSeqno pdm =
     thenSendSeqnoAck (notifyLocalPersistence_locked persistenceSeqno pdm)"

fun onState ::
  "PassiveDurabilityMonitor \<Rightarrow> State outcome \<Rightarrow> PassiveDurabilityMonitor outcome" where
  "onState pdm (Done s) = Done (pdm\<lparr>state := s\<rparr>)"
| "onState pdm (Thrown e s) = Thrown e (pdm\<lparr>state := s\<rparr>)"

text \<open>
  The four operations of the monitor, each with what it reads from the vbucket, and a
  sequence of calls. A call that throws leaves the monitor as it was at the throw; the
  sequence goes on from there.
\<close>

datatype operation =
    AddSyncWrite Item "int64 option"
  | CompleteSyncWrite string Resolution "uint64 option" bool
  | NotifySnapshotEndReceived uint64 bool uint64
  | NotifyLocalPersistence uint64

fun perform ::
  "bool \<Rightarrow> operation \<Rightarrow> PassiveDurabilityMonitor \<Rightarrow> PassiveDurabilityMonitor outcome" where
  "perform devAsserts (AddSyncWrite item ops) pdm =
     onState pdm (addSyncWrite devAsserts item ops (state pdm))"
| "perform devAsserts (CompleteSyncWrite k res prepareSeqno disk) pdm =
     onState pdm (completeSyncWrite k res prepareSeqno disk (state pdm))"
| "perform devAsserts (NotifySnapshotEndReceived snapEnd disk persisted) pdm =
     notifySnapshotEndReceived snapEnd disk persisted pdm"
| "perform devAsserts (NotifyLocalPersistence persisted) pdm =
     notifyLocalPersistence persisted pdm"

fun run ::
  "bool \<Rightarrow> operation list \<Rightarrow> PassiveDurabilityMonitor \<Rightarrow> PassiveDurabilityMonitor" where
  "run devAsserts [] pdm = pdm"
| "run devAsserts (op # ops) pdm = run devAsserts ops (stateOf (perform devAsserts op pdm))"

text \<open>
  The monitor is called from several threads. Each of the following is done under one
  lock and so is one step: addSyncWrite, completeSyncWrite and the locked part of either
  notification under the state lock, sendSeqnoAck under the lock of the latch.
  \<open>atomicSteps devAsserts start pdm\<close>: the monitor \<open>pdm\<close> is what some sequence of such
  steps, in any order, makes of \<open>start\<close>.
\<close>

inductive atomicSteps ::
  "bool \<Rightarrow> PassiveDurabilityMonitor \<Rightarrow> PassiveDurabilityMonitor \<Rightarrow> bool"
  for devAsserts :: bool and start :: PassiveDurabilityMonitor where
  noStep: "atomicSteps devAsserts start start"
| addStep:
    "atomicSteps devAsserts start pdm \<Longrightarrow>
     atomicSteps devAsserts start
       (stateOf (onState pdm (addSyncWrite devAsserts item ops (state pdm))))"
| completeStep:
    "atomicSteps devAsserts start pdm \<Longrightarrow>
     atomicSteps devAsserts start
       (stateOf (onState pdm (completeSyncWrite k res prepareSeqno disk (state pdm))))"
| snapshotEndStep:
    "atomicSteps devAsserts start pdm \<Longrightarrow>
     atomicSteps devAsserts start
       (stateOf (notifySnapshotEndReceived_locked snapEnd disk persisted pdm))"
| persistenceStep:
    "atomicSteps devAsserts start pdm \<Longrightarrow>
     atomicSteps devAsserts start (stateOf (notifyLocalPersistence_locked persisted pdm))"
| sendStep:
    "atomicSteps devAsserts start pdm \<Longrightarrow>
     atomicSteps devAsserts start (sendSeqnoAck pdm)"

text \<open>
  The invariant of the latch and of the acks sent: the acks sent so far are strictly
  increasing and none is above the HPS; a pending (non-zero) latch is not above the HPS
  and is above every ack sent so far.
\<close>

definition ackInvariant :: "PassiveDurabilityMonitor \<Rightarrow> bool" where
  "ackInvariant pdm \<longleftrightarrow>
     sorted_wrt word_sless (sentSeqnoAcks pdm) \<and>
     (\<forall>a \<in> set (sentSeqnoAcks pdm). a <=s lastWriteSeqno (highPreparedSeqno (state pdm))) \<and>
     (seqnoToAck pdm \<noteq> 0 \<longrightarrow>
        seqnoToAck pdm <=s lastWriteSeqno (highPreparedSeqno (state pdm)) \<and>
        (\<forall>a \<in> set (sentSeqnoAcks pdm). a <s seqnoToAck pdm))"

section \<open>FailoverTable::needsRollback\<close>

record failover_entry_t =
  vb_uuid :: uint64
  by_seqno :: uint64

text \<open>
  Modelled from the spec: the body of FailoverTable::needsRollback, of which only the
  declaration (failover-table.h) is among the sources. The table is the list of entries,
  newest first. \<open>findBranch\<close> looks the uuid up and returns its entry together with the
  end of its branch: the seqno of the next entry above it, or \<open>cur_seqno\<close> for the head
  (step 3 of section 4.1). \<open>needsRollback\<close> is steps 1, 2, 4 and 5; its result is the
  returned boolean and, for a rollback, the seqno to roll back to.
\<close>

fun findBranch ::
  "failover_entry_t list \<Rightarrow> uint64 \<Rightarrow> uint64 \<Rightarrow> (failover_entry_t \<times> uint64) option" where
  "findBranch [] uuid upper = None"
| "findBranch (e # es) uuid upper =
     (if vb_uuid e = uuid then Some (e, upper) else findBranch es uuid (by_seqno e))"

definition needsRollback ::
  "failover_entry_t list \<Rightarrow> uint64 \<Rightarrow> uint64 \<Rightarrow> uint64 \<Rightarrow> uint64 \<Rightarrow> uint64 \<Rightarrow> uint64 \<Rightarrow>
   bool \<Rightarrow> uint64 option \<Rightarrow> bool \<times> uint64 option" where
  "needsRollback table start_seqno cur_seqno uuid snap_start_seqno snap_end_seqno purge_seqno
     strictVbUuidMatch maxCollectionHighSeqno =
     (if start_seqno = 0 \<and> \<not> strictVbUuidMatch then (False, None)
      else
        case findBranch table uuid cur_seqno of
          None \<Rightarrow> (True, Some 0)
        | Some (entry, branchEnd) \<Rightarrow>
            if by_seqno entry \<le> start_seqno \<and> start_seqno \<le> branchEnd \<and>
               by_seqno entry \<le> snap_start_seqno \<and> snap_end_seqno \<le> branchEnd \<and>
               purge_seqno \<le> start_seqno
            then (False, None)
            else
              (let target = min branchEnd snap_start_seqno
               in (True, Some (case maxCollectionHighSeqno of
                                 None \<Rightarrow> target
                               | Some m \<Rightarrow> min target m))))"

section \<open>Example inputs\<close>

definition exampleTable :: "failover_entry_t list" where
  "exampleTable = [\<lparr>vb_uuid = 7, by_seqno = 100\<rparr>, \<lparr>vb_uuid = 3, by_seqno = 50\<rparr>]"

definition item_k1_5 :: Item where
  "item_k1_5 = \<lparr>key = ''k1'', bySeqno = 5, level = Majority, timeout = Millis 30000\<rparr>"

definition item_k2_8 :: Item where
  "item_k2_8 = \<lparr>key = ''k2'', bySeqno = 8, level = PersistToMajority, timeout = Millis 30000\<rparr>"

definition item_k3_12 :: Item where
  "item_k3_12 = \<lparr>key = ''k3'', bySeqno = 12, level = Majority, timeout = Millis 30000\<rparr>"

definition item_k1_15 :: Item where
  "item_k1_15 = \<lparr>key = ''k1'', bySeqno = 15, level = PersistToMajority, timeout = Infinity\<rparr>"

definition diskSnapshotState :: State where
  "diskSnapshotState =
     \<lparr>trackedWrites = [newSyncWrite item_k1_15],
      highPreparedSeqno = \<lparr>it = None, lastWriteSeqno = 0\<rparr>,
      highCompletedSeqno = \<lparr>it = None, lastWriteSeqno = 0\<rparr>,
      receivedSnapshotEnds = [\<lparr>seqno = 20, type = Disk\<rparr>],
      totalAccepted = 1, totalCommitted = 0, totalAborted = 0\<rparr>"

definition item_k1_10 :: Item where
  "item_k1_10 = \<lparr>key = ''k1'', bySeqno = 10, level = Majority, timeout = Infinity\<rparr>"

definition item_k2_11 :: Item where
  "item_k2_11 = \<lparr>key = ''k2'', bySeqno = 11, level = Majority, timeout = Infinity\<rparr>"

definition bothPreparedHps11 :: State where
  "bothPreparedHps11 =
     \<lparr>trackedWrites = [newSyncWrite item_k1_10, newSyncWrite item_k2_11],
      highPreparedSeqno = \<lparr>it = Some 1, lastWriteSeqno = 11\<rparr>,
      highCompletedSeqno = \<lparr>it = None, lastWriteSeqno = 0\<rparr>,
      receivedSnapshotEnds = [],
      totalAccepted = 2, totalCommitted = 0, totalAborted = 0\<rparr>"

definition openPrepareBelowFence :: State where
  "openPrepareBelowFence =
     \<lparr>trackedWrites = [newSyncWrite item_k1_10, (newSyncWrite item_k2_11)\<lparr>completed := True\<rparr>],
      highPreparedSeqno = \<lparr>it = Some 1, lastWriteSeqno = 11\<rparr>,
      highCompletedSeqno = \<lparr>it = Some 1, lastWriteSeqno = 11\<rparr>,
      receivedSnapshotEnds = [],
      totalAccepted = 2, totalCommitted = 0, totalAborted = 0\<rparr>"

definition nothingTracked11 :: State where
  "nothingTracked11 =
     \<lparr>trackedWrites = [],
      highPreparedSeqno = \<lparr>it = None, lastWriteSeqno = 11\<rparr>,
      highCompletedSeqno = \<lparr>it = None, lastWriteSeqno = 11\<rparr>,
      receivedSnapshotEnds = [],
      totalAccepted = 2, totalCommitted = 1, totalAborted = 0\<rparr>"


definition item_k1_9 :: Item where
  "item_k1_9 = \<lparr>key = ''k1'', bySeqno = 9, level = Majority, timeout = Millis 30000\<rparr>"

definition item_levelNone :: Item where
  "item_levelNone = \<lparr>key = ''k1'', bySeqno = 9, level = LevelNone, timeout = Millis 30000\<rparr>"

definition oneTracked :: State where
  "oneTracked =
     \<lparr>trackedWrites = [newSyncWrite item_k1_5],
      highPreparedSeqno = \<lparr>it = None, lastWriteSeqno = 0\<rparr>,
      highCompletedSeqno = \<lparr>it = None, lastWriteSeqno = 0\<rparr>,
      receivedSnapshotEnds = [],
      totalAccepted = 1, totalCommitted = 0, totalAborted = 0\<rparr>"

definition completedNotPruned :: State where
  "completedNotPruned =
     \<lparr>trackedWrites = [(newSyncWrite item_k1_10)\<lparr>completed := True\<rparr>],
      highPreparedSeqno = \<lparr>it = None, lastWriteSeqno = 0\<rparr>,
      highCompletedSeqno = \<lparr>it = Some 0, lastWriteSeqno = 10\<rparr>,
      receivedSnapshotEnds = [],
      totalAccepted = 1, totalCommitted = 1, totalAborted = 0\<rparr>"


definition threePrepares :: State where
  "threePrepares =
     \<lparr>trackedWrites = [newSyncWrite item_k1_5, newSyncWrite item_k2_8, newSyncWrite item_k3_12],
      highPreparedSeqno = \<lparr>it = None, lastWriteSeqno = 0\<rparr>,
      highCompletedSeqno = \<lparr>it = None, lastWriteSeqno = 0\<rparr>,
      receivedSnapshotEnds = [\<lparr>seqno = 12, type = Memory\<rparr>],
      totalAccepted = 3, totalCommitted = 0, totalAborted = 0\<rparr>"


definition fiveLatched :: PassiveDurabilityMonitor where
  "fiveLatched =
     \<lparr>state = threePrepares\<lparr>highPreparedSeqno := \<lparr>it = Some 0, lastWriteSeqno = 5\<rparr>\<rparr>,
      seqnoToAck = 5, sentSeqnoAcks = []\<rparr>"


definition k2CompletedFirst :: State where
  "k2CompletedFirst =
     \<lparr>trackedWrites = [newSyncWrite item_k1_10, (newSyncWrite item_k2_11)\<lparr>completed := True\<rparr>],
      highPreparedSeqno = \<lparr>it = None, lastWriteSeqno = 0\<rparr>,
      highCompletedSeqno = \<lparr>it = Some 1, lastWriteSeqno = 11\<rparr>,
      receivedSnapshotEnds = [],
      totalAccepted = 2, totalCommitted = 1, totalAborted = 0\<rparr>"


section \<open>Signed order and the monotonic guard\<close>


lemma sle_refl: "(a::int64) <=s a"
  by (simp add: word_sle_eq)

lemma sle_trans: "(a::int64) <=s b \<Longrightarrow> b <=s c \<Longrightarrow> a <=s c"
  by (simp add: word_sle_eq)

lemma not_sless_sle: "\<not> (a::int64) <s b \<longleftrightarrow> b <=s a"
  by (auto simp: word_sle_eq word_sless_alt)

lemma monotonicAssign_Inr: "monotonicAssign cur new = Inr v \<Longrightarrow> v = new \<and> cur <=s new"
  by (auto simp: monotonicAssign_def not_sless_sle split: if_splits)

lemma advanceHPS_others:
  "trackedWrites (stateOf (advanceHPS e m s)) = trackedWrites s \<and>
   highCompletedSeqno (stateOf (advanceHPS e m s)) = highCompletedSeqno s \<and>
   totalAccepted (stateOf (advanceHPS e m s)) = totalAccepted s"
proof (induction e m s rule: advanceHPS.induct)
  case (1 e m s)
  show ?case
    by (subst (1 2 3) advanceHPS.simps)
       (auto simp: 1 split: option.splits sum.splits)
qed

lemma advanceHPS_mono:
  "lastWriteSeqno (highPreparedSeqno s) <=s
   lastWriteSeqno (highPreparedSeqno (stateOf (advanceHPS e m s)))"
proof (induction e m s rule: advanceHPS.induct)
  case (1 e m s)
  show ?case
  proof (cases "getIteratorNext (trackedWrites s) (it (highPreparedSeqno s))")
    case None
    then show ?thesis by (subst advanceHPS.simps) (simp add: sle_refl)
  next
    case (Some n)
    show ?thesis
    proof (cases "inSnapshot (trackedWrites s) e (Some n) \<and>
             levelValue (level (trackedWrites s ! n)) \<le> levelValue m")
      case False
      with Some show ?thesis by (subst advanceHPS.simps) (auto simp add: sle_refl)
    next
      case True
      show ?thesis
      proof (cases "monotonicAssign (lastWriteSeqno (highPreparedSeqno s)) (bySeqno (trackedWrites s ! n))")
        case (Inl err)
        with Some True show ?thesis by (subst advanceHPS.simps) (auto simp add: sle_refl)
      next
        case (Inr v)
        from monotonicAssign_Inr [OF Inr] have v: "lastWriteSeqno (highPreparedSeqno s) <=s v" by simp
        have "v <=s lastWriteSeqno (highPreparedSeqno (stateOf (advanceHPS e m
                 (s\<lparr>highPreparedSeqno := \<lparr>it = Some n, lastWriteSeqno = v\<rparr>\<rparr>))))"
          using "1" [OF Some True Inr] by simp
        with v have "lastWriteSeqno (highPreparedSeqno s) <=s
             lastWriteSeqno (highPreparedSeqno (stateOf (advanceHPS e m
                 (s\<lparr>highPreparedSeqno := \<lparr>it = Some n, lastWriteSeqno = v\<rparr>\<rparr>))))"
          by (rule sle_trans)
        with Some True Inr show ?thesis by (subst advanceHPS.simps) simp
      qed
    qed
  qed
qed


section \<open>What each function leaves alone, and monotonicity\<close>


lemma advanceWithinSnapshot_others:
  "trackedWrites (stateOf (advanceWithinSnapshot p snap s)) = trackedWrites s \<and>
   highCompletedSeqno (stateOf (advanceWithinSnapshot p snap s)) = highCompletedSeqno s \<and>
   totalAccepted (stateOf (advanceWithinSnapshot p snap s)) = totalAccepted s"
proof -
  define r where
    "r = (if trackedWrites s \<noteq> []
          then advanceHPS (seqno snap)
                 (maxLevelCanAdvanceOver (seqno snap <=s p) (type snap = Disk)) s
          else Done s)"
  have "trackedWrites (stateOf r) = trackedWrites s \<and>
        highCompletedSeqno (stateOf r) = highCompletedSeqno s \<and>
        totalAccepted (stateOf r) = totalAccepted s"
    by (simp add: r_def advanceHPS_others)
  then show ?thesis
    unfolding advanceWithinSnapshot_def Let_def r_def [symmetric]
    by (cases r) (auto split: sum.splits)
qed

lemma advanceWithinSnapshot_mono:
  "lastWriteSeqno (highPreparedSeqno s) <=s
   lastWriteSeqno (highPreparedSeqno (stateOf (advanceWithinSnapshot p snap s)))"
proof -
  define r where
    "r = (if trackedWrites s \<noteq> []
          then advanceHPS (seqno snap)
                 (maxLevelCanAdvanceOver (seqno snap <=s p) (type snap = Disk)) s
          else Done s)"
  have r: "lastWriteSeqno (highPreparedSeqno s) <=s lastWriteSeqno (highPreparedSeqno (stateOf r))"
    by (simp add: r_def advanceHPS_mono sle_refl)
  show ?thesis
    unfolding advanceWithinSnapshot_def Let_def r_def [symmetric]
    using r
    by (cases r) (auto split: sum.splits dest!: monotonicAssign_Inr intro: sle_trans)
qed

lemma processSnapshotEnds_others:
  "trackedWrites (stateOf (processSnapshotEnds p s)) = trackedWrites s \<and>
   highCompletedSeqno (stateOf (processSnapshotEnds p s)) = highCompletedSeqno s \<and>
   totalAccepted (stateOf (processSnapshotEnds p s)) = totalAccepted s"
proof (induction p s rule: processSnapshotEnds.induct)
  case (1 p s)
  show ?case
  proof (cases "receivedSnapshotEnds s")
    case Nil
    then show ?thesis by (subst (1 2 3) processSnapshotEnds.simps) simp
  next
    case (Cons snap rest)
    show ?thesis
    proof (cases "advanceWithinSnapshot p snap s")
      case (Thrown e s1)
      with Cons advanceWithinSnapshot_others [of p snap s] show ?thesis
        by (subst (1 2 3) processSnapshotEnds.simps) simp
    next
      case (Done s1)
      with Cons advanceWithinSnapshot_others [of p snap s] "1" [OF Cons Done] show ?thesis
        by (subst (1 2 3) processSnapshotEnds.simps) simp
    qed
  qed
qed

lemma processSnapshotEnds_mono:
  "lastWriteSeqno (highPreparedSeqno s) <=s
   lastWriteSeqno (highPreparedSeqno (stateOf (processSnapshotEnds p s)))"
proof (induction p s rule: processSnapshotEnds.induct)
  case (1 p s)
  show ?case
  proof (cases "receivedSnapshotEnds s")
    case Nil
    then show ?thesis by (subst processSnapshotEnds.simps) (simp add: sle_refl)
  next
    case (Cons snap rest)
    show ?thesis
    proof (cases "advanceWithinSnapshot p snap s")
      case (Thrown e s1)
      with Cons advanceWithinSnapshot_mono [of s p snap] show ?thesis
        by (subst processSnapshotEnds.simps) simp
    next
      case (Done s1)
      with advanceWithinSnapshot_mono [of s p snap]
      have a: "lastWriteSeqno (highPreparedSeqno s) <=s lastWriteSeqno (highPreparedSeqno s1)"
        by simp
      show ?thesis
      proof (cases "stopsAtSnapshot p snap s1")
        case True
        with Cons Done a show ?thesis by (subst processSnapshotEnds.simps) simp
      next
        case False
        from "1" [OF Cons Done False]
        have "lastWriteSeqno (highPreparedSeqno s1) <=s
              lastWriteSeqno (highPreparedSeqno (stateOf (processSnapshotEnds p
                (s1\<lparr>receivedSnapshotEnds := tl (receivedSnapshotEnds s1)\<rparr>))))"
          by simp
        with a have "lastWriteSeqno (highPreparedSeqno s) <=s
              lastWriteSeqno (highPreparedSeqno (stateOf (processSnapshotEnds p
                (s1\<lparr>receivedSnapshotEnds := tl (receivedSnapshotEnds s1)\<rparr>))))"
          by (rule sle_trans)
        with Cons Done False show ?thesis by (subst processSnapshotEnds.simps) simp
      qed
    qed
  qed
qed

lemma eraseTracked_seqnos:
  "lastWriteSeqno (highPreparedSeqno (eraseTracked i s)) = lastWriteSeqno (highPreparedSeqno s) \<and>
   lastWriteSeqno (highCompletedSeqno (eraseTracked i s)) = lastWriteSeqno (highCompletedSeqno s) \<and>
   receivedSnapshotEnds (eraseTracked i s) = receivedSnapshotEnds s \<and>
   totalAccepted (eraseTracked i s) = totalAccepted s"
  by (simp add: eraseTracked_def Let_def resetIfAt_def)

lemma removeUpTo_seqnos:
  "lastWriteSeqno (highPreparedSeqno (removeUpTo f s)) = lastWriteSeqno (highPreparedSeqno s) \<and>
   lastWriteSeqno (highCompletedSeqno (removeUpTo f s)) = lastWriteSeqno (highCompletedSeqno s) \<and>
   receivedSnapshotEnds (removeUpTo f s) = receivedSnapshotEnds s \<and>
   totalAccepted (removeUpTo f s) = totalAccepted s"
proof (induction f s rule: removeUpTo.induct)
  case (1 f s)
  show ?case
  proof (cases "trackedWrites s \<noteq> [] \<and> bySeqno (trackedWrites s ! 0) <=s f")
    case True
    then have "removeUpTo f s = removeUpTo f (eraseTracked 0 s)"
      by (subst removeUpTo.simps) simp
    with True "1" eraseTracked_seqnos [of 0 s] show ?thesis by simp
  next
    case False
    then have "removeUpTo f s = s"
      by (subst removeUpTo.simps) auto
    then show ?thesis by simp
  qed
qed

lemma checkForAndRemovePrepares_seqnos:
  "lastWriteSeqno (highPreparedSeqno (checkForAndRemovePrepares s)) =
     lastWriteSeqno (highPreparedSeqno s) \<and>
   lastWriteSeqno (highCompletedSeqno (checkForAndRemovePrepares s)) =
     lastWriteSeqno (highCompletedSeqno s) \<and>
   receivedSnapshotEnds (checkForAndRemovePrepares s) = receivedSnapshotEnds s \<and>
   totalAccepted (checkForAndRemovePrepares s) = totalAccepted s"
  by (simp add: checkForAndRemovePrepares_def removeUpTo_seqnos)

lemma updateHighPreparedSeqno_mono:
  "lastWriteSeqno (highPreparedSeqno s) <=s
     lastWriteSeqno (highPreparedSeqno (stateOf (updateHighPreparedSeqno p s))) \<and>
   lastWriteSeqno (highCompletedSeqno (stateOf (updateHighPreparedSeqno p s))) =
     lastWriteSeqno (highCompletedSeqno s)"
  using processSnapshotEnds_mono [of s p] processSnapshotEnds_others [of p s]
  by (cases "processSnapshotEnds p s")
     (auto simp: updateHighPreparedSeqno_def Let_def checkForAndRemovePrepares_seqnos)

lemma addSyncWrite_seqnos:
  "lastWriteSeqno (highPreparedSeqno (stateOf (addSyncWrite d item ops s))) =
     lastWriteSeqno (highPreparedSeqno s) \<and>
   lastWriteSeqno (highCompletedSeqno (stateOf (addSyncWrite d item ops s))) =
     lastWriteSeqno (highCompletedSeqno s)"
  by (auto simp: addSyncWrite_def eraseTracked_seqnos split: option.splits)

lemma completeSyncWrite_mono:
  "lastWriteSeqno (highPreparedSeqno (stateOf (completeSyncWrite k res ps disk s))) =
     lastWriteSeqno (highPreparedSeqno s) \<and>
   lastWriteSeqno (highCompletedSeqno s) <=s
     lastWriteSeqno (highCompletedSeqno (stateOf (completeSyncWrite k res ps disk s)))"
  by (auto simp: completeSyncWrite_def Let_def checkForAndRemovePrepares_seqnos sle_refl
           split: option.splits sum.splits Resolution.splits
           dest!: monotonicAssign_Inr)

lemma updateAndStore_mono:
  "lastWriteSeqno (highPreparedSeqno s) <=s
     lastWriteSeqno (highPreparedSeqno (state (stateOf (updateAndStore p s pdm)))) \<and>
   lastWriteSeqno (highCompletedSeqno (state (stateOf (updateAndStore p s pdm)))) =
     lastWriteSeqno (highCompletedSeqno s)"
  using updateHighPreparedSeqno_mono [of s p]
  by (cases "updateHighPreparedSeqno p s") (simp_all add: updateAndStore_def Let_def)

lemma thenSendSeqnoAck_state:
  "state (stateOf (thenSendSeqnoAck r)) = state (stateOf r)"
  by (cases r) (simp_all add: sendSeqnoAck_def Let_def)

lemma perform_mono:
  "lastWriteSeqno (highPreparedSeqno (state pdm)) <=s
     lastWriteSeqno (highPreparedSeqno (state (stateOf (perform d op pdm)))) \<and>
   lastWriteSeqno (highCompletedSeqno (state pdm)) <=s
     lastWriteSeqno (highCompletedSeqno (state (stateOf (perform d op pdm))))"
proof (cases op)
  case (AddSyncWrite item ops)
  with addSyncWrite_seqnos [of d item ops "state pdm"] show ?thesis
    by (cases "addSyncWrite d item ops (state pdm)") (simp_all add: sle_refl)
next
  case (CompleteSyncWrite k res ps disk)
  with completeSyncWrite_mono [of k res ps disk "state pdm"] show ?thesis
    by (cases "completeSyncWrite k res ps disk (state pdm)") (simp_all add: sle_refl)
next
  case (NotifySnapshotEndReceived snapEnd disk p)
  define s1 where "s1 = (state pdm)\<lparr>receivedSnapshotEnds := receivedSnapshotEnds (state pdm) @
                   [\<lparr>seqno = snapEnd, type = (if disk then Disk else Memory)\<rparr>]\<rparr>"
  from updateAndStore_mono [of s1 p pdm] NotifySnapshotEndReceived show ?thesis
    by (simp add: notifySnapshotEndReceived_def notifySnapshotEndReceived_locked_def
          thenSendSeqnoAck_state Let_def s1_def sle_refl)
next
  case (NotifyLocalPersistence p)
  from updateAndStore_mono [of "state pdm" p pdm] NotifyLocalPersistence show ?thesis
    by (simp add: notifyLocalPersistence_def notifyLocalPersistence_locked_def
          thenSendSeqnoAck_state sle_refl)
qed

lemma run_append: "run d (earlier @ later) pdm = run d later (run d earlier pdm)"
  by (induction earlier arbitrary: pdm) simp_all

lemma run_mono:
  "lastWriteSeqno (highPreparedSeqno (state pdm)) <=s
     lastWriteSeqno (highPreparedSeqno (state (run d ops pdm))) \<and>
   lastWriteSeqno (highCompletedSeqno (state pdm)) <=s
     lastWriteSeqno (highCompletedSeqno (state (run d ops pdm)))"
proof (induction ops arbitrary: pdm)
  case Nil
  show ?case by (simp add: sle_refl)
next
  case (Cons op ops)
  from perform_mono [of pdm d op] Cons [of "stateOf (perform d op pdm)"]
  show ?case by (auto intro: sle_trans)
qed


section \<open>The loops in terms of list functions\<close>


lemma getIteratorNext_in_range:
  "getIteratorNext tw itr = Some n \<Longrightarrow> n < length tw"
  by (auto simp: getIteratorNext_def tw_begin_def std_next_def split: option.splits if_splits)

lemma scanForKey_from:
  "i < length tw \<Longrightarrow>
   scanForKey tw k (Some i) =
     (let j = i + length (takeWhile (\<lambda>w. key w \<noteq> k) (drop i tw))
      in if j < length tw then Some j else None)"
proof (induction "length tw - i" arbitrary: i)
  case 0
  then show ?case by simp
next
  case (Suc m)
  from Suc.prems have d: "drop i tw = tw ! i # drop (Suc i) tw"
    by (simp add: Cons_nth_drop_Suc)
  show ?case
  proof (cases "key (tw ! i) = k")
    case True
    with Suc.prems d show ?thesis
      by (subst scanForKey.simps) (simp add: Let_def)
  next
    case False
    show ?thesis
    proof (cases "Suc i < length tw")
      case True
      from Suc.hyps(2) True have "m = length tw - Suc i" by simp
      from Suc.hyps(1) [OF this True] False Suc.prems d True show ?thesis
        by (subst scanForKey.simps)
           (simp add: Let_def getIteratorNext_def std_next_def)
    next
      case F2: False
      with Suc.prems have "drop (Suc i) tw = []" by simp
      with False Suc.prems d F2 show ?thesis
        by (subst scanForKey.simps, simp add: Let_def getIteratorNext_def std_next_def)
           (subst scanForKey.simps, simp)
    qed
  qed
qed

lemma scanForKey_begin:
  "scanForKey tw k (tw_begin tw) =
     (if length (takeWhile (\<lambda>w. key w \<noteq> k) tw) < length tw
      then Some (length (takeWhile (\<lambda>w. key w \<noteq> k) tw)) else None)"
proof (cases "tw = []")
  case True
  then show ?thesis by (subst scanForKey.simps) (simp add: tw_begin_def)
next
  case False
  then have "0 < length tw" by simp
  from scanForKey_from [OF this, of k] False show ?thesis
    by (simp add: tw_begin_def Let_def)
qed

lemma scanForKey_none_iff:
  "scanForKey tw k (tw_begin tw) = None \<longleftrightarrow> (\<forall>w \<in> set tw. key w \<noteq> k)"
proof -
  have "length (takeWhile (\<lambda>w. key w \<noteq> k) tw) < length tw \<longleftrightarrow> \<not> (\<forall>w \<in> set tw. key w \<noteq> k)"
    by (induction tw) auto
  then show ?thesis by (auto simp: scanForKey_begin)
qed

lemma removeUpTo_char:
  "removeUpTo f s =
     s\<lparr>trackedWrites := dropWhile (\<lambda>w. bySeqno w <=s f) (trackedWrites s),
       highCompletedSeqno := (highCompletedSeqno s)
          \<lparr>it := rebase (length (takeWhile (\<lambda>w. bySeqno w <=s f) (trackedWrites s)))
                   (it (highCompletedSeqno s))\<rparr>,
       highPreparedSeqno := (highPreparedSeqno s)
          \<lparr>it := rebase (length (takeWhile (\<lambda>w. bySeqno w <=s f) (trackedWrites s)))
                   (it (highPreparedSeqno s))\<rparr>\<rparr>"
proof (induction f s rule: removeUpTo.induct)
  case (1 f s)
  show ?case
  proof (cases "trackedWrites s")
    case Nil
    then have "removeUpTo f s = s" by (subst removeUpTo.simps) simp
    with Nil show ?thesis by (simp add: rebase_def split: option.splits)
  next
    case (Cons w ws)
    show ?thesis
    proof (cases "bySeqno w <=s f")
      case False
      with Cons have "removeUpTo f s = s" by (subst removeUpTo.simps) simp
      with Cons False show ?thesis by (simp add: rebase_def split: option.splits)
    next
      case True
      with Cons have u: "removeUpTo f s = removeUpTo f (eraseTracked 0 s)"
        by (subst removeUpTo.simps) simp
      have e: "trackedWrites (eraseTracked 0 s) = ws"
        using Cons by (simp add: eraseTracked_def Let_def)
      have r: "rebase n (shiftIt 0 (it (resetIfAt 0 p))) = rebase (Suc n) (it p)" for n p
        by (auto simp: rebase_def shiftIt_def resetIfAt_def split: option.splits)
      have ru: "(resetIfAt 0 p)\<lparr>it := x\<rparr> = p\<lparr>it := x\<rparr>" for p :: Position and x
        by (simp add: resetIfAt_def)
      from Cons True have c: "trackedWrites s \<noteq> [] \<and> bySeqno (trackedWrites s ! 0) <=s f" by simp
      show ?thesis
        unfolding u "1" [OF c] e
        using Cons True
        by (simp add: eraseTracked_def Let_def r ru)
    qed
  qed
qed

lemma levelValue_zero: "levelValue l = 0 \<longleftrightarrow> l = LevelNone"
  by (cases l) simp_all

lemma advanceHPS_LevelNone:
  assumes "\<forall>w \<in> set (trackedWrites s). level w \<noteq> LevelNone"
  shows "advanceHPS e LevelNone s = Done s"
proof (cases "getIteratorNext (trackedWrites s) (it (highPreparedSeqno s))")
  case None
  then show ?thesis by (subst advanceHPS.simps) simp
next
  case (Some n)
  then have "n < length (trackedWrites s)" by (rule getIteratorNext_in_range)
  with assms have "level (trackedWrites s ! n) \<noteq> LevelNone" by simp
  with Some show ?thesis
    by (subst advanceHPS.simps) (simp add: levelValue_zero)
qed


section \<open>Evaluation on concrete inputs\<close>

lemmas eval_defs =
  addSyncWrite_def completeSyncWrite_def completionCandidate_def
  notifySnapshotEndReceived_def notifyLocalPersistence_def
  notifySnapshotEndReceived_locked_def notifyLocalPersistence_locked_def updateAndStore_def
  updateHighPreparedSeqno_def advanceWithinSnapshot_def stopsAtSnapshot_def
  maxLevelCanAdvanceOver_def inSnapshot_def monotonicAssign_def
  checkForAndRemovePrepares_def fenceOf_def smin_def eraseTracked_def resetIfAt_def
  shiftIt_def getIteratorNext_def tw_begin_def std_next_def
  storeSeqnoAck_def sendSeqnoAck_def newSyncWrite_def
  newPassiveDurabilityMonitor_def initialState_def Let_def
  word_sle_eq word_sless_alt

lemmas eval_loops =
  scanForKey.simps removeUpTo.simps advanceHPS.simps processSnapshotEnds.simps


lemma list_ex_iff_Bex: "list_ex P xs \<longleftrightarrow> (\<exists>x \<in> set xs. P x)"
  by (simp add: list_ex_iff)

lemma checkForAndRemovePrepares_tracked:
  "trackedWrites (checkForAndRemovePrepares s) =
     dropWhile (\<lambda>w. bySeqno w <=s fenceOf s) (trackedWrites s)"
  by (simp add: checkForAndRemovePrepares_def removeUpTo_char)

lemma fenceOf_checkForAndRemovePrepares:
  "fenceOf (checkForAndRemovePrepares s) = fenceOf s"
  by (simp add: fenceOf_def checkForAndRemovePrepares_seqnos)


lemma completionCandidate_in_range:
  "completionCandidate ordered k s = Some n \<Longrightarrow> n < length (trackedWrites s)"
  by (auto simp: completionCandidate_def scanForKey_begin
           dest: getIteratorNext_in_range split: if_splits)


section \<open>The update of the HPS on one snapshot\<close>








section \<open>The latch and the acks\<close>

lemma storeSeqnoAck_grows: "latch <=s storeSeqnoAck prevHps newHps latch"
  by (simp add: storeSeqnoAck_def word_sle_eq word_sless_alt)

lemma ackInvariant_state_step:
  assumes "ackInvariant pdm"
    and "lastWriteSeqno (highPreparedSeqno (state pdm)) <=s lastWriteSeqno (highPreparedSeqno s)"
  shows "ackInvariant (pdm\<lparr>state := s\<rparr>)"
  using assms by (auto simp: ackInvariant_def intro: sle_trans)

lemma ackInvariant_updateAndStore:
  assumes inv: "ackInvariant pdm"
    and s: "lastWriteSeqno (highPreparedSeqno s) = lastWriteSeqno (highPreparedSeqno (state pdm))"
  shows "ackInvariant (stateOf (updateAndStore p s pdm))"
proof (cases "updateHighPreparedSeqno p s")
  case (Thrown e s1)
  with updateHighPreparedSeqno_mono [of s p] s
  have "lastWriteSeqno (highPreparedSeqno (state pdm)) <=s lastWriteSeqno (highPreparedSeqno s1)"
    by simp
  from ackInvariant_state_step [OF inv this] Thrown show ?thesis
    by (simp add: updateAndStore_def Let_def)
next
  case (Done s1)
  let ?prev = "lastWriteSeqno (highPreparedSeqno (state pdm))"
  let ?new = "lastWriteSeqno (highPreparedSeqno s1)"
  from Done updateHighPreparedSeqno_mono [of s p] s have le: "?prev <=s ?new" by simp
  from ackInvariant_state_step [OF inv le] have i1: "ackInvariant (pdm\<lparr>state := s1\<rparr>)" .
  show ?thesis
  proof (cases "?prev \<noteq> ?new \<and> seqnoToAck pdm <s ?new")
    case True
    with le have lt: "?prev <s ?new" by (simp add: word_sless_eq)
    from inv have "\<forall>a \<in> set (sentSeqnoAcks pdm). a <=s ?prev" by (simp add: ackInvariant_def)
    with lt have "\<forall>a \<in> set (sentSeqnoAcks pdm). a <s ?new"
      by (auto simp: word_sle_eq word_sless_alt)
    with True i1 Done s show ?thesis
      by (simp add: updateAndStore_def Let_def storeSeqnoAck_def ackInvariant_def sle_refl)
  next
    case False
    then have "storeSeqnoAck ?prev ?new (seqnoToAck pdm) = seqnoToAck pdm"
      by (auto simp: storeSeqnoAck_def)
    with i1 Done s show ?thesis
      by (simp add: updateAndStore_def Let_def ackInvariant_def)
  qed
qed

lemma ackInvariant_sendSeqnoAck:
  assumes "ackInvariant pdm"
  shows "ackInvariant (sendSeqnoAck pdm)"
  using assms
  by (auto simp: ackInvariant_def sendSeqnoAck_def Let_def sorted_wrt_append)

lemma ackInvariant_atomicSteps:
  assumes "atomicSteps d start pdm" and "ackInvariant start"
  shows "ackInvariant pdm"
  using assms
proof (induction rule: atomicSteps.induct)
  case noStep
  then show ?case .
next
  case (addStep pdm item ops)
  then have i: "ackInvariant pdm" by simp
  from addSyncWrite_seqnos [of d item ops "state pdm"]
  have "lastWriteSeqno (highPreparedSeqno (state pdm)) <=s
        lastWriteSeqno (highPreparedSeqno (stateOf (addSyncWrite d item ops (state pdm))))"
    by (simp add: sle_refl)
  from ackInvariant_state_step [OF i this] show ?case
    by (cases "addSyncWrite d item ops (state pdm)") simp_all
next
  case (completeStep pdm k res prepareSeqno disk)
  then have i: "ackInvariant pdm" by simp
  from completeSyncWrite_mono [of k res prepareSeqno disk "state pdm"]
  have "lastWriteSeqno (highPreparedSeqno (state pdm)) <=s
        lastWriteSeqno (highPreparedSeqno
          (stateOf (completeSyncWrite k res prepareSeqno disk (state pdm))))"
    by (simp add: sle_refl)
  from ackInvariant_state_step [OF i this] show ?case
    by (cases "completeSyncWrite k res prepareSeqno disk (state pdm)") simp_all
next
  case (snapshotEndStep pdm snapEnd disk persisted)
  then have i: "ackInvariant pdm" by simp
  show ?case
    unfolding notifySnapshotEndReceived_locked_def Let_def
    by (rule ackInvariant_updateAndStore [OF i]) simp
next
  case (persistenceStep pdm persisted)
  then have i: "ackInvariant pdm" by simp
  show ?case
    unfolding notifyLocalPersistence_locked_def
    by (rule ackInvariant_updateAndStore [OF i]) simp
next
  case (sendStep pdm)
  then show ?case by (simp add: ackInvariant_sendSeqnoAck)
qed

lemma perform_atomicSteps:
  assumes "atomicSteps d start pdm"
  shows "atomicSteps d start (stateOf (perform d op pdm))"
proof (cases op)
  case (AddSyncWrite item ops)
  with atomicSteps.addStep [OF assms] show ?thesis by simp
next
  case (CompleteSyncWrite k res ps disk)
  with atomicSteps.completeStep [OF assms] show ?thesis by simp
next
  case (NotifySnapshotEndReceived snapEnd disk p)
  from atomicSteps.snapshotEndStep [OF assms, of snapEnd disk p]
  have l: "atomicSteps d start (stateOf (notifySnapshotEndReceived_locked snapEnd disk p pdm))" .
  from atomicSteps.sendStep [OF l] l NotifySnapshotEndReceived show ?thesis
    by (cases "notifySnapshotEndReceived_locked snapEnd disk p pdm")
       (simp_all add: notifySnapshotEndReceived_def)
next
  case (NotifyLocalPersistence p)
  from atomicSteps.persistenceStep [OF assms, of p]
  have l: "atomicSteps d start (stateOf (notifyLocalPersistence_locked p pdm))" .
  from atomicSteps.sendStep [OF l] l NotifyLocalPersistence show ?thesis
    by (cases "notifyLocalPersistence_locked p pdm")
       (simp_all add: notifyLocalPersistence_def)
qed

lemma run_atomicSteps_from:
  "atomicSteps d start pdm \<Longrightarrow> atomicSteps d start (run d ops pdm)"
  by (induction ops arbitrary: pdm) (simp_all add: perform_atomicSteps)

lemma run_atomicSteps: "atomicSteps d start (run d ops start)"
  by (rule run_atomicSteps_from) (rule atomicSteps.noStep)


lemma completeSyncWrite_hcs:
  "lastWriteSeqno (highCompletedSeqno (stateOf (completeSyncWrite k res ps disk s))) =
     lastWriteSeqno (highCompletedSeqno s) \<or>
   (\<exists>n. completionCandidate (\<not> disk) k s = Some n \<and>
        lastWriteSeqno (highCompletedSeqno (stateOf (completeSyncWrite k res ps disk s))) =
          bySeqno (trackedWrites s ! n) \<and>
        (\<not> disk \<or> lastWriteSeqno (highCompletedSeqno s) <s bySeqno (trackedWrites s ! n)))"
  by (cases "completionCandidate (\<not> disk) k s"; cases res)
     (auto simp: completeSyncWrite_def Let_def checkForAndRemovePrepares_seqnos
                 monotonicAssign_def
           split: option.splits)

lemma fiveLatched_reached:
  "stateOf (notifySnapshotEndReceived_locked 12 False 0
     (run False [AddSyncWrite item_k1_5 None, AddSyncWrite item_k2_8 None,
                 AddSyncWrite item_k3_12 None] newPassiveDurabilityMonitor)) = fiveLatched"
  by (simp add: fiveLatched_def threePrepares_def item_k1_5_def item_k2_8_def item_k3_12_def
        eval_defs eval_loops)

lemma fiveLatched_atomicSteps: "atomicSteps False newPassiveDurabilityMonitor fiveLatched"
proof -
  have "atomicSteps False newPassiveDurabilityMonitor
          (run False [AddSyncWrite item_k1_5 None, AddSyncWrite item_k2_8 None,
                      AddSyncWrite item_k3_12 None] newPassiveDurabilityMonitor)"
    by (rule run_atomicSteps)
  then have "atomicSteps False newPassiveDurabilityMonitor
          (stateOf (notifySnapshotEndReceived_locked 12 False 0
             (run False [AddSyncWrite item_k1_5 None, AddSyncWrite item_k2_8 None,
                         AddSyncWrite item_k3_12 None] newPassiveDurabilityMonitor)))"
    by (rule atomicSteps.snapshotEndStep)
  then show ?thesis by (simp only: fiveLatched_reached)
qed

section \<open>Claims\<close>

text \<open>
  C1. Over every sequence of monitor operations both cursor seqnos,
  \<open>highPreparedSeqno.lastWriteSeqno\<close> and \<open>highCompletedSeqno.lastWriteSeqno\<close>, never
  decrease: whatever has been run before (\<open>earlier\<close>) and whatever is run after
  (\<open>later\<close>), whether or not a call throws on the way, the values after are not below
  the values before (signed comparison). In particular completeSyncWrite leaves the HCS
  seqno as it is or sets it to the candidate's seqno, and the latter only when ordered
  completion is enforced or the candidate's seqno is above the current HCS.
\<close>

theorem cursors_monotone:
  "lastWriteSeqno (highPreparedSeqno (state (run d earlier pdm))) <=s
     lastWriteSeqno (highPreparedSeqno (state (run d (earlier @ later) pdm))) \<and>
   lastWriteSeqno (highCompletedSeqno (state (run d earlier pdm))) <=s
     lastWriteSeqno (highCompletedSeqno (state (run d (earlier @ later) pdm))) \<and>
   (lastWriteSeqno (highCompletedSeqno (stateOf (completeSyncWrite k res ps disk s))) =
      lastWriteSeqno (highCompletedSeqno s) \<or>
    (\<exists>n. completionCandidate (\<not> disk) k s = Some n \<and>
         lastWriteSeqno (highCompletedSeqno (stateOf (completeSyncWrite k res ps disk s))) =
           bySeqno (trackedWrites s ! n) \<and>
         (\<not> disk \<or> lastWriteSeqno (highCompletedSeqno s) <s bySeqno (trackedWrites s ! n))))"
  using completeSyncWrite_hcs [of k res ps disk s]
  by (simp only: run_append run_mono simp_thms)

text \<open>
  The witness: during a disk snapshot the prepare of k2 (seqno 11) was completed before
  that of k1 (seqno 10); completing k1 then leaves the HCS at 11.
\<close>

theorem cursors_monotone_witness:
  "state (run False [AddSyncWrite item_k1_10 None, AddSyncWrite item_k2_11 None,
                     CompleteSyncWrite ''k2'' Commit (Some 11) True]
            newPassiveDurabilityMonitor) = k2CompletedFirst \<and>
   completeSyncWrite ''k1'' Commit (Some 10) True k2CompletedFirst =
     Done (k2CompletedFirst
             \<lparr>trackedWrites := [(newSyncWrite item_k1_10)\<lparr>completed := True\<rparr>,
                                (newSyncWrite item_k2_11)\<lparr>completed := True\<rparr>],
              totalCommitted := 2\<rparr>) \<and>
   lastWriteSeqno (highCompletedSeqno
     (stateOf (completeSyncWrite ''k1'' Commit (Some 10) True k2CompletedFirst))) = 11"
  using cursors_monotone
          [where d = False and pdm = newPassiveDurabilityMonitor
             and earlier = "[AddSyncWrite item_k1_10 None, AddSyncWrite item_k2_11 None]"
             and later = "[CompleteSyncWrite ''k2'' Commit (Some 11) True]"
             and k = "''k1''" and res = Commit and ps = "Some 10" and disk = True
             and s = k2CompletedFirst]
  by (simp add: k2CompletedFirst_def item_k1_10_def item_k2_11_def eval_defs eval_loops)



text \<open>
  C3. When the snapshot end at the head of the queue is that of a disk snapshot which is
  not yet fully persisted (\<open>persistenceSeqno\<close> below the snapshot end), the level the HPS
  may advance over is \<open>LevelNone\<close>, and since every tracked prepare has a level above it,
  updateHighPreparedSeqno returns without changing anything: the HPS seqno and iterator
  stay, nothing is pruned, and the snapshot end stays at the head of the queue (processing
  stops at that snapshot).
\<close>

theorem disk_snapshot_unpersisted_no_advance:
  assumes "receivedSnapshotEnds s = snapshotEnd # rest"
    and "type snapshotEnd = Disk"
    and "persistenceSeqno <s seqno snapshotEnd"
    and "\<forall>w \<in> set (trackedWrites s). level w \<noteq> LevelNone"
  shows "maxLevelCanAdvanceOver (seqno snapshotEnd <=s persistenceSeqno)
           (type snapshotEnd = Disk) = LevelNone
         \<and> updateHighPreparedSeqno persistenceSeqno s = Done s"
proof -
  from assms(3) have np: "\<not> seqno snapshotEnd <=s persistenceSeqno"
    by (simp add: word_sle_eq word_sless_alt)
  with assms(2) have m: "maxLevelCanAdvanceOver (seqno snapshotEnd <=s persistenceSeqno)
           (type snapshotEnd = Disk) = LevelNone"
    by (simp add: maxLevelCanAdvanceOver_def)
  have a: "advanceWithinSnapshot persistenceSeqno snapshotEnd s = Done s"
    using np assms(2) advanceHPS_LevelNone [OF assms(4)]
    by (simp add: advanceWithinSnapshot_def Let_def maxLevelCanAdvanceOver_def)
  have b: "stopsAtSnapshot persistenceSeqno snapshotEnd s"
    using np assms(2) by (simp add: stopsAtSnapshot_def)
  have "processSnapshotEnds persistenceSeqno s = Done s"
    using assms(1) a b by (subst processSnapshotEnds.simps) simp
  then have "updateHighPreparedSeqno persistenceSeqno s = Done s"
    by (simp add: updateHighPreparedSeqno_def)
  with m show ?thesis by simp
qed

theorem disk_snapshot_unpersisted_no_advance_witness:
  "updateHighPreparedSeqno 10 diskSnapshotState = Done diskSnapshotState"
  using disk_snapshot_unpersisted_no_advance
          [of diskSnapshotState "\<lparr>seqno = 20, type = Disk\<rparr>" "[]" 10]
  by (simp add: diskSnapshotState_def newSyncWrite_def item_k1_15_def)



text \<open>
  C5. Pruning is to erase from the head of \<open>trackedWrites\<close> only tracked writes at or
  below the fence \<open>min(HPS.lastWriteSeqno, HCS.lastWriteSeqno)\<close> that are completed, and
  never one that is not completed. checkForAndRemovePrepares does not do that: it tests
  the seqno against the fence and never reads the \<open>completed\<close> flag. The input: the
  prepares of k1 (seqno 10) and k2 (seqno 11), both Majority, are added and the end (11)
  of their memory snapshot is notified, which moves the HPS to 11 and prunes nothing;
  then, during a disk snapshot, the commit of k2 arrives. completeSyncWrite moves the HCS
  to 11, marks k2 completed and prunes, in the state \<open>openPrepareBelowFence\<close>: the
  prepare of k1, which is not completed, is at the head and at most the fence, and it is
  erased together with that of k2. The completion of k1 that follows finds nothing
  tracked and throws, although completeSyncWrite scans from \<open>begin()\<close> in that mode
  precisely because the HCS may have passed a prepare whose completion is still to come.
\<close>

theorem pruning_removes_uncompleted_prepare:
  "run False [AddSyncWrite item_k1_10 None, AddSyncWrite item_k2_11 None,
              NotifySnapshotEndReceived 11 False 0] newPassiveDurabilityMonitor =
     \<lparr>state = bothPreparedHps11, seqnoToAck = 0, sentSeqnoAcks = [11]\<rparr> \<and>
   openPrepareBelowFence =
     bothPreparedHps11
       \<lparr>trackedWrites :=
          (trackedWrites bothPreparedHps11)
            [1 := (trackedWrites bothPreparedHps11 ! 1)\<lparr>completed := True\<rparr>],
        highCompletedSeqno := \<lparr>it = Some 1, lastWriteSeqno = 11\<rparr>\<rparr> \<and>
   key (trackedWrites openPrepareBelowFence ! 0) = ''k1'' \<and>
   completed (trackedWrites openPrepareBelowFence ! 0) = False \<and>
   bySeqno (trackedWrites openPrepareBelowFence ! 0) <=s fenceOf openPrepareBelowFence \<and>
   trackedWrites (checkForAndRemovePrepares openPrepareBelowFence) = [] \<and>
   completeSyncWrite ''k2'' Commit (Some 11) True bothPreparedHps11 = Done nothingTracked11 \<and>
   completeSyncWrite ''k1'' Commit (Some 10) False nothingTracked11 =
     Thrown LogicError_NoTracked nothingTracked11 \<and>
   completeSyncWrite ''k1'' Commit (Some 10) True nothingTracked11 =
     Thrown LogicError_NoTracked nothingTracked11"
  by (simp add: bothPreparedHps11_def openPrepareBelowFence_def nothingTracked11_def
        item_k1_10_def item_k2_11_def eval_defs eval_loops)

text \<open>
  C6. From a monitor with nothing latched and nothing sent, after any sequence of atomic
  steps (the operations of the monitor, with the locked part of a notification and the
  sending of the ack as separate steps, so that notifications of several threads may
  overlap), the seqnos passed to \<open>vb.sendSeqnoAck\<close> are strictly increasing and none is
  above the HPS; a pending latch is not above the HPS (it was the HPS when it was latched,
  and the HPS never decreases) and is above every ack sent before. storeSeqnoAck never
  lowers the latch; sendSeqnoAck sends the latch exactly when it is not zero and leaves
  it zero.
\<close>

theorem acks_bounded_and_increasing:
  assumes "seqnoToAck start = 0" and "sentSeqnoAcks start = []"
    and "atomicSteps devAsserts start pdm"
  shows
    "sorted_wrt word_sless (sentSeqnoAcks pdm) \<and>
     (\<forall>a \<in> set (sentSeqnoAcks pdm). a <=s lastWriteSeqno (highPreparedSeqno (state pdm))) \<and>
     (seqnoToAck pdm \<noteq> 0 \<longrightarrow>
        seqnoToAck pdm <=s lastWriteSeqno (highPreparedSeqno (state pdm)) \<and>
        (\<forall>a \<in> set (sentSeqnoAcks pdm). a <s seqnoToAck pdm)) \<and>
     seqnoToAck pdm <=s storeSeqnoAck prevHps newHps (seqnoToAck pdm) \<and>
     seqnoToAck (sendSeqnoAck pdm) = 0 \<and>
     (seqnoToAck pdm = 0 \<longrightarrow> sentSeqnoAcks (sendSeqnoAck pdm) = sentSeqnoAcks pdm) \<and>
     (seqnoToAck pdm \<noteq> 0 \<longrightarrow>
        sentSeqnoAcks (sendSeqnoAck pdm) = sentSeqnoAcks pdm @ [seqnoToAck pdm])"
proof -
  from assms(1,2) have "ackInvariant start" by (simp add: ackInvariant_def)
  from ackInvariant_atomicSteps [OF assms(3) this] show ?thesis
    by (simp add: ackInvariant_def storeSeqnoAck_grows sendSeqnoAck_def Let_def)
qed


text \<open>
  The witness: with the prepares at 5, 8 and 12 tracked, the locked part of
  notifySnapshotEndReceived(12) latches 5; sending it leaves the latch at zero; the whole
  sequence of operations, followed by a notifyLocalPersistence that has persisted 12, sends
  5 and then 12.
\<close>

theorem acks_bounded_and_increasing_witness:
  "seqnoToAck fiveLatched = 5 \<and>
   sentSeqnoAcks (sendSeqnoAck fiveLatched) = [5] \<and>
   seqnoToAck (sendSeqnoAck fiveLatched) = 0 \<and>
   sentSeqnoAcks (run False [AddSyncWrite item_k1_5 None, AddSyncWrite item_k2_8 None,
              AddSyncWrite item_k3_12 None, NotifySnapshotEndReceived 12 False 0,
              NotifyLocalPersistence 12] newPassiveDurabilityMonitor) = [5, 12] \<and>
   sorted_wrt word_sless
     (sentSeqnoAcks (run False [AddSyncWrite item_k1_5 None, AddSyncWrite item_k2_8 None,
              AddSyncWrite item_k3_12 None, NotifySnapshotEndReceived 12 False 0,
              NotifyLocalPersistence 12] newPassiveDurabilityMonitor))"
proof -
  have r: "atomicSteps False newPassiveDurabilityMonitor
          (run False [AddSyncWrite item_k1_5 None, AddSyncWrite item_k2_8 None,
              AddSyncWrite item_k3_12 None, NotifySnapshotEndReceived 12 False 0,
              NotifyLocalPersistence 12] newPassiveDurabilityMonitor)"
    by (rule run_atomicSteps)
  have f: "seqnoToAck newPassiveDurabilityMonitor = 0"
    "sentSeqnoAcks newPassiveDurabilityMonitor = []"
    by (simp_all add: newPassiveDurabilityMonitor_def)
  from acks_bounded_and_increasing [OF f fiveLatched_atomicSteps]
       acks_bounded_and_increasing [OF f r]
  show ?thesis
    by (simp add: fiveLatched_def threePrepares_def item_k1_5_def item_k2_8_def item_k3_12_def
          eval_defs eval_loops)
qed

text \<open>
  C7 (as amended). completeSyncWrite throws a logic error, leaving the state as it was,
  when \<open>trackedWrites\<close> is empty, when the candidate is \<open>end()\<close>, when the candidate's
  key is not the given key, or when a \<open>prepareSeqno\<close> is given and is not the candidate's
  \<open>bySeqno\<close>. It also throws when, with ordered completion, the candidate's seqno is
  below the current HCS (the monotonic guard) and when the candidate is already completed
  (\<open>Expects\<close>); it throws in no other case. When it returns, the candidate was marked
  completed and the tracked writes were then pruned up to the fence.
\<close>

theorem completeSyncWrite_outcomes:
  fixes s :: State and isReceivingDiskSnapshot :: bool and k :: string
  defines "cand \<equiv> completionCandidate (\<not> isReceivingDiskSnapshot) k s"
  shows
    "(isThrown (completeSyncWrite k res prepareSeqno isReceivingDiskSnapshot s) \<longleftrightarrow>
        trackedWrites s = [] \<or> cand = None \<or>
        (\<exists>n. cand = Some n \<and>
           (key (trackedWrites s ! n) \<noteq> k \<or>
            (\<exists>p. prepareSeqno = Some p \<and> bySeqno (trackedWrites s ! n) \<noteq> p) \<or>
            (\<not> isReceivingDiskSnapshot \<and>
               bySeqno (trackedWrites s ! n) <s lastWriteSeqno (highCompletedSeqno s)) \<or>
            completed (trackedWrites s ! n)))) \<and>
     (trackedWrites s = [] \<or> cand = None \<or>
        (\<exists>n. cand = Some n \<and>
           (key (trackedWrites s ! n) \<noteq> k \<or>
            (\<exists>p. prepareSeqno = Some p \<and> bySeqno (trackedWrites s ! n) \<noteq> p))) \<longrightarrow>
        (\<exists>e. completeSyncWrite k res prepareSeqno isReceivingDiskSnapshot s = Thrown e s \<and>
             e \<in> {LogicError_NoTracked, LogicError_NoPrepareWaiting, LogicError_UnexpectedKey,
                  LogicError_DifferentPrepareSeqno})) \<and>
     (\<forall>s'. completeSyncWrite k res prepareSeqno isReceivingDiskSnapshot s = Done s' \<longrightarrow>
        (\<exists>n. cand = Some n \<and> n < length (trackedWrites s) \<and>
           trackedWrites s' =
             dropWhile (\<lambda>w. bySeqno w <=s fenceOf s')
               ((trackedWrites s)[n := (trackedWrites s ! n)\<lparr>completed := True\<rparr>])))"
proof (intro conjI)
  have c: "completionCandidate (\<not> isReceivingDiskSnapshot) k s = cand"
    by (simp add: cand_def)
  have r: "n < length (trackedWrites s)" if "cand = Some n" for n
    using that completionCandidate_in_range [of "\<not> isReceivingDiskSnapshot" k s n]
    by (simp add: c)
  show "isThrown (completeSyncWrite k res prepareSeqno isReceivingDiskSnapshot s) \<longleftrightarrow>
        trackedWrites s = [] \<or> cand = None \<or>
        (\<exists>n. cand = Some n \<and>
           (key (trackedWrites s ! n) \<noteq> k \<or>
            (\<exists>p. prepareSeqno = Some p \<and> bySeqno (trackedWrites s ! n) \<noteq> p) \<or>
            (\<not> isReceivingDiskSnapshot \<and>
               bySeqno (trackedWrites s ! n) <s lastWriteSeqno (highCompletedSeqno s)) \<or>
            completed (trackedWrites s ! n)))"
    unfolding completeSyncWrite_def Let_def c
    by (cases cand; cases prepareSeqno; cases isReceivingDiskSnapshot)
       (auto simp: monotonicAssign_def word_sless_alt)
  show "trackedWrites s = [] \<or> cand = None \<or>
        (\<exists>n. cand = Some n \<and>
           (key (trackedWrites s ! n) \<noteq> k \<or>
            (\<exists>p. prepareSeqno = Some p \<and> bySeqno (trackedWrites s ! n) \<noteq> p))) \<longrightarrow>
        (\<exists>e. completeSyncWrite k res prepareSeqno isReceivingDiskSnapshot s = Thrown e s \<and>
             e \<in> {LogicError_NoTracked, LogicError_NoPrepareWaiting, LogicError_UnexpectedKey,
                  LogicError_DifferentPrepareSeqno})"
    unfolding completeSyncWrite_def Let_def c
    by (cases cand; cases prepareSeqno) auto
  show "\<forall>s'. completeSyncWrite k res prepareSeqno isReceivingDiskSnapshot s = Done s' \<longrightarrow>
        (\<exists>n. cand = Some n \<and> n < length (trackedWrites s) \<and>
           trackedWrites s' =
             dropWhile (\<lambda>w. bySeqno w <=s fenceOf s')
               ((trackedWrites s)[n := (trackedWrites s ! n)\<lparr>completed := True\<rparr>]))"
    unfolding completeSyncWrite_def Let_def c
    by (cases cand; cases prepareSeqno; cases isReceivingDiskSnapshot; cases res)
       (auto simp: monotonicAssign_def r
                   checkForAndRemovePrepares_tracked fenceOf_checkForAndRemovePrepares
                   fenceOf_def checkForAndRemovePrepares_seqnos
             split: if_splits)
qed

theorem completeSyncWrite_outcomes_witness:
  "completeSyncWrite ''k1'' Commit (Some 5) False oneTracked =
     Done (oneTracked\<lparr>trackedWrites := [(newSyncWrite item_k1_5)\<lparr>completed := True\<rparr>],
                      highCompletedSeqno := \<lparr>it = Some 0, lastWriteSeqno = 5\<rparr>,
                      totalCommitted := 1\<rparr>) \<and>
   completeSyncWrite ''k1'' Commit (Some 6) False oneTracked =
     Thrown LogicError_DifferentPrepareSeqno oneTracked"
  using completeSyncWrite_outcomes [of "''k1''" Commit "Some 5" False oneTracked]
        completeSyncWrite_outcomes [of "''k1''" Commit "Some 6" False oneTracked]
  by (simp add: item_k1_5_def oneTracked_def eval_defs eval_loops)


text \<open>
  The claim as stated fails: a prepare that is completed but not yet pruned (the HPS has
  not reached it) is found again by a completion for its key during a disk snapshot; none
  of the four listed conditions holds, and the call throws at the \<open>Expects\<close>.
\<close>

theorem completeSyncWrite_already_completed_throws:
  "trackedWrites completedNotPruned \<noteq> [] \<and>
   completionCandidate False ''k1'' completedNotPruned = Some 0 \<and>
   key (trackedWrites completedNotPruned ! 0) = ''k1'' \<and>
   bySeqno (trackedWrites completedNotPruned ! 0) = 10 \<and>
   completeSyncWrite ''k1'' Commit (Some 10) True completedNotPruned =
     Thrown ExpectsFailed completedNotPruned \<and>
   state (run False [AddSyncWrite item_k1_10 None,
                     CompleteSyncWrite ''k1'' Commit (Some 10) False]
            newPassiveDurabilityMonitor) = completedNotPruned"
  by (simp add: item_k1_10_def completedNotPruned_def eval_defs eval_loops)

text \<open>
  C8 (as amended). addSyncWrite throws the invalid-level error when the item's level is
  None, and the invalid-timeout error when the level is valid and the timeout is the
  default sentinel, in both cases leaving the state unchanged. For a valid item it throws
  exactly when the tracked write found for the key has a \<open>bySeqno\<close> other than
  \<open>overwritingPrepareSeqno\<close> (\<open>Expects\<close>) or, in a development build, a write with the
  item's key that is not completed is still tracked; when it returns, the new write is at
  the tail (behind the tracked writes less the overwritten one), \<open>totalAccepted\<close> is one
  more, and the seqnos of both cursors are as before.
\<close>

theorem addSyncWrite_outcomes:
  fixes s :: State and item :: Item and overwritingPrepareSeqno :: "int64 option"
  defines "i \<equiv> length (takeWhile (\<lambda>w. key w \<noteq> key item) (trackedWrites s))"
  defines "erased \<equiv>
     (if overwritingPrepareSeqno \<noteq> None \<and> i < length (trackedWrites s)
      then take i (trackedWrites s) @ drop (Suc i) (trackedWrites s)
      else trackedWrites s)"
  shows
    "(level item = LevelNone \<longrightarrow>
        addSyncWrite devAsserts item overwritingPrepareSeqno s =
          Thrown InvalidArgument_LevelNone s) \<and>
     (level item \<noteq> LevelNone \<and> isDefault (timeout item) \<longrightarrow>
        addSyncWrite devAsserts item overwritingPrepareSeqno s =
          Thrown InvalidArgument_TimeoutDefault s) \<and>
     (level item \<noteq> LevelNone \<and> \<not> isDefault (timeout item) \<longrightarrow>
        (isThrown (addSyncWrite devAsserts item overwritingPrepareSeqno s) \<longleftrightarrow>
           (\<exists>ops. overwritingPrepareSeqno = Some ops \<and> i < length (trackedWrites s) \<and>
                  bySeqno (trackedWrites s ! i) \<noteq> ops) \<or>
           (devAsserts \<and> (\<exists>w \<in> set erased. \<not> completed w \<and> key w = key item))) \<and>
        (\<forall>s'. addSyncWrite devAsserts item overwritingPrepareSeqno s = Done s' \<longrightarrow>
           trackedWrites s' = erased @ [newSyncWrite item] \<and>
           totalAccepted s' = totalAccepted s + 1 \<and>
           lastWriteSeqno (highPreparedSeqno s') = lastWriteSeqno (highPreparedSeqno s) \<and>
           lastWriteSeqno (highCompletedSeqno s') = lastWriteSeqno (highCompletedSeqno s)))"
proof (intro conjI impI)
  assume "level item = LevelNone"
  then show "addSyncWrite devAsserts item overwritingPrepareSeqno s =
          Thrown InvalidArgument_LevelNone s"
    by (simp add: addSyncWrite_def)
next
  assume "level item \<noteq> LevelNone \<and> isDefault (timeout item)"
  then show "addSyncWrite devAsserts item overwritingPrepareSeqno s =
          Thrown InvalidArgument_TimeoutDefault s"
    by (simp add: addSyncWrite_def)
next
  assume v: "level item \<noteq> LevelNone \<and> \<not> isDefault (timeout item)"
  show "isThrown (addSyncWrite devAsserts item overwritingPrepareSeqno s) \<longleftrightarrow>
           (\<exists>ops. overwritingPrepareSeqno = Some ops \<and> i < length (trackedWrites s) \<and>
                  bySeqno (trackedWrites s ! i) \<noteq> ops) \<or>
           (devAsserts \<and> (\<exists>w \<in> set erased. \<not> completed w \<and> key w = key item))"
    using v
    by (cases overwritingPrepareSeqno)
       (auto simp: addSyncWrite_def scanForKey_begin i_def erased_def list_ex_iff_Bex
                   eraseTracked_def Let_def)
next
  assume v: "level item \<noteq> LevelNone \<and> \<not> isDefault (timeout item)"
  show "\<forall>s'. addSyncWrite devAsserts item overwritingPrepareSeqno s = Done s' \<longrightarrow>
           trackedWrites s' = erased @ [newSyncWrite item] \<and>
           totalAccepted s' = totalAccepted s + 1 \<and>
           lastWriteSeqno (highPreparedSeqno s') = lastWriteSeqno (highPreparedSeqno s) \<and>
           lastWriteSeqno (highCompletedSeqno s') = lastWriteSeqno (highCompletedSeqno s)"
    using v
    by (cases overwritingPrepareSeqno)
       (auto simp: addSyncWrite_def scanForKey_begin i_def erased_def
                   eraseTracked_def Let_def resetIfAt_def split: if_splits)
qed

theorem addSyncWrite_outcomes_witness:
  "addSyncWrite False item_k1_9 (Some 5) oneTracked =
     Done (oneTracked\<lparr>trackedWrites := [newSyncWrite item_k1_9], totalAccepted := 2\<rparr>) \<and>
   addSyncWrite False item_levelNone None oneTracked = Thrown InvalidArgument_LevelNone oneTracked \<and>
   totalAccepted (stateOf (addSyncWrite False item_k1_9 (Some 5) oneTracked)) = 2 \<and>
   trackedWrites (stateOf (addSyncWrite False item_k1_9 (Some 5) oneTracked)) =
     [newSyncWrite item_k1_9]"
  using addSyncWrite_outcomes [of item_k1_9 False "Some 5" oneTracked]
        addSyncWrite_outcomes [of item_levelNone False None oneTracked]
  by (simp add: item_k1_9_def item_k1_5_def item_levelNone_def oneTracked_def eval_defs eval_loops)


text \<open>
  The claim as stated fails: a valid item whose \<open>overwritingPrepareSeqno\<close> (7) is not the
  seqno (5) of the tracked prepare with its key is not appended; the call throws.
\<close>

theorem addSyncWrite_overwrite_mismatch_throws:
  "level item_k1_9 \<noteq> LevelNone \<and> \<not> isDefault (timeout item_k1_9) \<and>
   addSyncWrite False item_k1_9 (Some 7) oneTracked = Thrown ExpectsFailed oneTracked"
  by (simp add: item_k1_9_def item_k1_5_def oneTracked_def eval_defs eval_loops)

text \<open>
  C9. needsRollback with \<open>start_seqno = 0\<close> and \<open>strictVbUuidMatch = False\<close> answers
  "no rollback" for every table and every value of the other arguments.
\<close>

theorem needsRollback_start_zero:
  "needsRollback table 0 cur_seqno uuid snap_start_seqno snap_end_seqno purge_seqno False
     maxCollectionHighSeqno = (False, None)"
  by (simp add: needsRollback_def)

text \<open>
  The witness: a start at 0 without a strict uuid match needs no rollback even for a uuid
  (99) that the table does not hold.
\<close>

theorem needsRollback_start_zero_witness:
  "findBranch exampleTable 99 100 = None \<and>
   needsRollback exampleTable 0 100 99 0 0 0 False None = (False, None)"
  using needsRollback_start_zero [of exampleTable 100 99 0 0 0 None]
  by (simp add: exampleTable_def)

text \<open>
  C10. addSyncWrite with an \<open>overwritingPrepareSeqno\<close> but no tracked write with the
  item's key, for an item that has got past the two argument checks at the top of the
  function (they come before the lookup and do not depend on it): the call returns
  normally. The erase step is skipped (nothing is erased, neither cursor is touched), the
  new write is appended at the tail and \<open>totalAccepted\<close> is incremented; nothing else
  changes. This holds in either build. The witness: with the prepare of k1 tracked, the
  prepare of k2 is added with an \<open>overwritingPrepareSeqno\<close> of 7.
\<close>

theorem addSyncWrite_overwrite_without_match:
  assumes "level item \<noteq> LevelNone"
    and "\<not> isDefault (timeout item)"
    and "\<forall>w \<in> set (trackedWrites s). key w \<noteq> key item"
  shows "addSyncWrite devAsserts item (Some overwritingPrepareSeqno) s =
           Done (s\<lparr>trackedWrites := trackedWrites s @ [newSyncWrite item],
                   totalAccepted := totalAccepted s + 1\<rparr>)"
proof -
  from assms(3) have "scanForKey (trackedWrites s) (key item) (tw_begin (trackedWrites s)) = None"
    by (simp add: scanForKey_none_iff)
  moreover from assms(3)
  have "\<not> list_ex (\<lambda>write. \<not> completed write \<and> key write = key item) (trackedWrites s)"
    by (auto simp: list_ex_iff_Bex)
  ultimately show ?thesis
    using assms(1,2) by (simp add: addSyncWrite_def)
qed

theorem addSyncWrite_overwrite_without_match_witness:
  "addSyncWrite True item_k2_8 (Some 7) oneTracked =
     Done (oneTracked\<lparr>trackedWrites := [newSyncWrite item_k1_5, newSyncWrite item_k2_8],
                      totalAccepted := 2\<rparr>)"
  using addSyncWrite_overwrite_without_match [of item_k2_8 oneTracked True 7]
  by (simp add: item_k2_8_def item_k1_5_def oneTracked_def newSyncWrite_def)

end
